theory Spec2Isabelle
  imports Main "HOL-Library.Multiset"
begin

section \<open>The Wordle solver of \<^verbatim>\<open>src/wordle-solver.ts\<close>\<close>

text \<open>
  A JavaScript string is modelled as a \<^typ>\<open>string\<close>: the list of its code units, as
  \<^verbatim>\<open>split("")\<close> produces them. \<^verbatim>\<open>s.length\<close> is \<^const>\<open>length\<close>, and
  \<^verbatim>\<open>s.includes(l)\<close> for a one-letter \<^verbatim>\<open>l\<close> is membership in \<^const>\<open>set\<close>.
  Counts are unbounded integers (the corpus has a few thousand words, far below the range
  where a double stops being exact). Writes to the console are not modelled.
\<close>

subsection \<open>JavaScript values\<close>

text \<open>\<^verbatim>\<open>word[index]\<close>: the letter at the index, \<^verbatim>\<open>undefined\<close> (\<^const>\<open>None\<close>) out of range.\<close>

definition at_index :: "'a list \<Rightarrow> nat \<Rightarrow> 'a option" where
  "at_index xs i = (if i < length xs then Some (xs ! i) else None)"

text \<open>A number that may be \<^verbatim>\<open>NaN\<close>.\<close>

datatype js_number = Num int | NaN

text \<open>\<^verbatim>\<open>acc + letterFreq[letter]\<close>, where the lookup may give \<^verbatim>\<open>undefined\<close>.\<close>

fun add_lookup :: "js_number \<Rightarrow> int option \<Rightarrow> js_number" where
  "add_lookup (Num a) (Some n) = Num (a + n)"
| "add_lookup (Num a) None = NaN"
| "add_lookup NaN v = NaN"

text \<open>\<^verbatim>\<open>a - b\<close> on numbers.\<close>

fun js_minus :: "js_number \<Rightarrow> js_number \<Rightarrow> js_number" where
  "js_minus (Num a) (Num b) = Num (a - b)"
| "js_minus a b = NaN"

text \<open>\<^verbatim>\<open>toLowerCase\<close> on the ASCII letters.\<close>

definition toLowerCase_char :: "char \<Rightarrow> char" where
  "toLowerCase_char c =
     (let n = (of_char c :: nat) in if 65 \<le> n \<and> n \<le> 90 then char_of (n + 32) else c)"

definition toLowerCase :: "string \<Rightarrow> string" where
  "toLowerCase s = map toLowerCase_char s"

text \<open>\<^verbatim>\<open>zip\<close> of \<^verbatim>\<open>utils\<close>: \<^verbatim>\<open>xs.map((x, i) => [x, ys[i]])\<close>, as long as \<^verbatim>\<open>xs\<close>.\<close>

definition zip_js :: "'a list \<Rightarrow> 'b list \<Rightarrow> ('a \<times> 'b option) list" where
  "zip_js xs ys = map (\<lambda>(x, i). (x, at_index ys i)) (zip xs [0..<length xs])"

text \<open>
  \<^verbatim>\<open>Array.prototype.sort\<close> with a comparator. The sort is stable, and a comparator result
  of \<^verbatim>\<open>NaN\<close> counts as \<open>0\<close>; for a consistent comparator the result is fixed by that, and
  insertion from the right computes it.
\<close>

definition not_after :: "js_number \<Rightarrow> bool" where
  "not_after v = (case v of NaN \<Rightarrow> True | Num n \<Rightarrow> n \<le> 0)"

fun insert_sorted :: "('a \<Rightarrow> 'a \<Rightarrow> js_number) \<Rightarrow> 'a \<Rightarrow> 'a list \<Rightarrow> 'a list" where
  "insert_sorted cmp x [] = [x]"
| "insert_sorted cmp x (y # ys) =
     (if not_after (cmp x y) then x # y # ys else y # insert_sorted cmp x ys)"

fun array_sort :: "('a \<Rightarrow> 'a \<Rightarrow> js_number) \<Rightarrow> 'a list \<Rightarrow> 'a list" where
  "array_sort cmp [] = []"
| "array_sort cmp (x # xs) = insert_sorted cmp x (array_sort cmp xs)"

subsection \<open>The solver's state\<close>

record solver =
  corpus :: "string list"
  startingWord :: "string option"
  guessesAndScores :: "(string \<times> string) list"
  logging :: bool
  guessLength :: nat

datatype error =
    GuessLengthError
  | ScoreLengthError
  | InvalidScoreLetters string

subsection \<open>Letter frequencies and ranking\<close>

text \<open>
  The body of the inner loop of \<^verbatim>\<open>letterFrequency\<close>:
  \<^verbatim>\<open>if (!letterFreq[letter]) letterFreq[letter] = 1; letterFreq[letter]++;\<close>
\<close>

definition count_letter :: "(char \<rightharpoonup> int) \<Rightarrow> char \<Rightarrow> (char \<rightharpoonup> int)" where
  "count_letter letterFreq letter =
     (let v = (case letterFreq letter of None \<Rightarrow> 1 | Some n \<Rightarrow> if n = 0 then 1 else n)
      in letterFreq(letter \<mapsto> v + 1))"

definition count_word :: "nat option \<Rightarrow> string \<Rightarrow> (char \<rightharpoonup> int) \<Rightarrow> (char \<rightharpoonup> int)" where
  "count_word atIndex word letterFreq =
     fold (\<lambda>(letter, index) lf.
             if atIndex \<noteq> None \<and> atIndex \<noteq> Some index then lf else count_letter lf letter)
          (zip word [0..<length word]) letterFreq"

definition letterFrequency :: "solver \<Rightarrow> nat option \<Rightarrow> (char \<rightharpoonup> int)" where
  "letterFrequency s atIndex = fold (count_word atIndex) (corpus s) Map.empty"

definition letterFrequencyScore :: "solver \<Rightarrow> string \<Rightarrow> js_number" where
  "letterFrequencyScore s word =
     (let letterFreq = letterFrequency s None
      in fold (\<lambda>letter acc. add_lookup acc (letterFreq letter)) word (Num 0))"

definition byFrequency :: "(char \<rightharpoonup> int) \<Rightarrow> string \<Rightarrow> string \<Rightarrow> js_number" where
  "byFrequency letterFreq a b =
     (let aUniqs = int (card (set a));
          bUniqs = int (card (set b));
          differenceOfUniqueness = bUniqs - aUniqs
      in if differenceOfUniqueness \<noteq> 0 then Num differenceOfUniqueness
         else let aFreq = fold (\<lambda>letter acc. add_lookup acc (letterFreq letter)) a (Num 0);
                  bFreq = fold (\<lambda>letter acc. add_lookup acc (letterFreq letter)) b (Num 0)
              in js_minus bFreq aFreq)"

definition sortByCommonness :: "solver \<Rightarrow> solver" where
  "sortByCommonness s =
     (let letterFreq = letterFrequency s None
      in s\<lparr>corpus := array_sort (byFrequency letterFreq) (corpus s)\<rparr>)"

definition sort_solver :: "solver \<Rightarrow> solver" where
  "sort_solver s = sortByCommonness s"

definition getSolutions :: "solver \<Rightarrow> string list \<times> solver" where
  "getSolutions s = (let s' = sort_solver s in (corpus s', s'))"

subsection \<open>Construction, reset and the best guess\<close>

definition reset :: "solver \<Rightarrow> string list \<Rightarrow> solver" where
  "reset s corpus0 = s\<lparr>corpus := corpus0, guessesAndScores := []\<rparr>"

text \<open>\<^verbatim>\<open>xs[0] ?? null\<close>\<close>

definition first_or_null :: "'a list \<Rightarrow> 'a option" where
  "first_or_null xs = (case xs of [] \<Rightarrow> None | x # _ \<Rightarrow> Some x)"

text \<open>
  The constructor. The default corpus is the word list of \<^verbatim>\<open>words.json\<close>, which is
  data outside the solver: the corpus is an argument here. The right operand of
  \<^verbatim>\<open>startingWord ?? this.getSolutions()[0] ?? null\<close> runs only when no starting word
  was given.
\<close>

definition construct :: "string list \<Rightarrow> string option \<Rightarrow> bool \<Rightarrow> solver" where
  "construct corpus0 startingWord0 logging0 =
     (let s0 = \<lparr>corpus = [], startingWord = None, guessesAndScores = [],
                logging = logging0, guessLength = 5\<rparr>;
          s1 = reset s0 corpus0;
          s2 = sort_solver s1
      in case startingWord0 of
           Some w \<Rightarrow> s2\<lparr>startingWord := Some w\<rparr>
         | None \<Rightarrow> (let (solutions, s3) = getSolutions s2
                    in s3\<lparr>startingWord := first_or_null solutions\<rparr>))"

definition getBestGuess :: "solver \<Rightarrow> string option \<times> solver" where
  "getBestGuess s =
     (if guessesAndScores s = [] then (startingWord s, s)
      else let (solutions, s') = getSolutions s in (first_or_null solutions, s'))"

subsection \<open>The four corpus filters\<close>

definition excludeLetters :: "solver \<Rightarrow> string \<Rightarrow> solver" where
  "excludeLetters s lettersToExclude =
     (let excludedLetters = set lettersToExclude
      in s\<lparr>corpus := filter (\<lambda>word. \<forall>letter \<in> set word. letter \<notin> excludedLetters) (corpus s)\<rparr>)"

definition excludeWithLetter :: "solver \<Rightarrow> char \<Rightarrow> nat \<Rightarrow> solver" where
  "excludeWithLetter s wrongLetter index =
     s\<lparr>corpus := filter (\<lambda>word. at_index word index \<noteq> Some wrongLetter) (corpus s)\<rparr>"

definition keepWithCorrectLetter :: "solver \<Rightarrow> char \<Rightarrow> nat \<Rightarrow> solver" where
  "keepWithCorrectLetter s correctLetter index =
     s\<lparr>corpus := filter (\<lambda>word. at_index word index = Some correctLetter) (corpus s)\<rparr>"

definition keepWithMisplacedLetter :: "solver \<Rightarrow> char \<Rightarrow> nat \<Rightarrow> solver" where
  "keepWithMisplacedLetter s misplacedLetter index =
     s\<lparr>corpus := filter (\<lambda>word. at_index word index \<noteq> Some misplacedLetter
                               \<and> misplacedLetter \<in> set word) (corpus s)\<rparr>"

subsection \<open>Applying a score\<close>

text \<open>The body of the \<^verbatim>\<open>forEach\<close> of \<^verbatim>\<open>score\<close>: a switch on the score letter.\<close>

definition apply_position :: "((char \<times> char option) \<times> nat) \<Rightarrow> solver \<Rightarrow> solver" where
  "apply_position entry s =
     (case entry of ((guessLetter, scoreLetter), index) \<Rightarrow>
        if scoreLetter = Some CHR ''x'' then keepWithCorrectLetter s guessLetter index
        else if scoreLetter = Some CHR ''i'' then keepWithMisplacedLetter s guessLetter index
        else if scoreLetter = Some CHR ''e'' then excludeWithLetter s guessLetter index
        else s)"

text \<open>
  The letters of the guess that occur again further right:
  \<^verbatim>\<open>guess.split("").filter((letter, index) => guess.slice(index + 1).includes(letter))\<close>
\<close>

definition duplicateLetters :: "string \<Rightarrow> char set" where
  "duplicateLetters guess =
     set (map fst (filter (\<lambda>(letter, index). letter \<in> set (drop (index + 1) guess))
                          (zip guess [0..<length guess])))"

definition misses :: "string \<Rightarrow> string \<Rightarrow> string" where
  "misses guess loweredScore =
     map fst (filter (\<lambda>(guessLetter, scoreLetter).
                        scoreLetter = Some CHR ''e'' \<and> guessLetter \<notin> duplicateLetters guess)
                     (zip_js guess loweredScore))"

text \<open>
  \<^verbatim>\<open>score(guess, score)\<close>. The result is the error thrown, if any, and the state of the
  solver when the call ends.
\<close>

definition score :: "solver \<Rightarrow> string \<Rightarrow> string \<Rightarrow> error option \<times> solver" where
  "score s guess scoreString =
     (if length guess \<noteq> guessLength s then (Some GuessLengthError, s)
      else if length scoreString \<noteq> guessLength s then (Some ScoreLengthError, s)
      else
        let loweredScore = toLowerCase scoreString;
            invalidScoreLetters =
              filter (\<lambda>l. l \<noteq> CHR ''x'' \<and> l \<noteq> CHR ''e'' \<and> l \<noteq> CHR ''i'') scoreString
        in if invalidScoreLetters \<noteq> [] then (Some (InvalidScoreLetters invalidScoreLetters), s)
           else
             let s1 = s\<lparr>guessesAndScores := guessesAndScores s @ [(guess, loweredScore)]\<rparr>;
                 guessAndScore = zip_js guess loweredScore;
                 s2 = excludeLetters s1 (misses guess loweredScore);
                 s3 = fold apply_position (zip guessAndScore [0..<length guessAndScore]) s2
             in (None, sort_solver s3))"

text \<open>A chain \<^verbatim>\<open>solver.score(g1, f1).score(g2, f2)...\<close>, which the first throw ends.\<close>

fun score_all :: "solver \<Rightarrow> (string \<times> string) list \<Rightarrow> error option \<times> solver" where
  "score_all s [] = (None, s)"
| "score_all s ((guess, scoreString) # rest) =
     (case score s guess scoreString of
        (Some e, s') \<Rightarrow> (Some e, s')
      | (None, s') \<Rightarrow> score_all s' rest)"

subsection \<open>The second guess\<close>

definition getSecondGuess :: "solver \<Rightarrow> string list" where
  "getSecondGuess s =
     (if length (guessesAndScores s) = 0 then corpus s
      else
        let currentWords = corpus s;
            (priorGuess, priorGuessScore) = last (guessesAndScores s);
            startingWords =
              filter (\<lambda>word. \<forall>(letter, index) \<in> set (zip word [0..<length word]).
                               at_index priorGuessScore index = Some CHR ''x''
                               \<or> Some letter \<noteq> at_index priorGuess index)
                     currentWords;
            solver = construct startingWords None False
        in fst (getSolutions solver))"

subsection \<open>The scorer\<close>

definition scoreGuess :: "string \<Rightarrow> string \<Rightarrow> string" where
  "scoreGuess guess targetWord =
     map (\<lambda>(letter, targetLetter).
            if Some letter = targetLetter then CHR ''x''
            else if letter \<in> set targetWord then CHR ''i''
            else CHR ''e'')
         (zip_js guess targetWord)"

subsection \<open>What one call of \<^verbatim>\<open>score\<close> keeps\<close>

text \<open>
  The predicate of the filter that \<^const>\<open>apply_position\<close> runs for one position, and
  the conjunction of all the predicates that one call of \<^const>\<open>score\<close> runs over the
  corpus: the one of \<^const>\<open>excludeLetters\<close> and the one of each position.
\<close>

definition survives_position :: "((char \<times> char option) \<times> nat) \<Rightarrow> string \<Rightarrow> bool" where
  "survives_position entry word =
     (case entry of ((guessLetter, scoreLetter), index) \<Rightarrow>
        if scoreLetter = Some CHR ''x'' then at_index word index = Some guessLetter
        else if scoreLetter = Some CHR ''i''
          then at_index word index \<noteq> Some guessLetter \<and> guessLetter \<in> set word
        else if scoreLetter = Some CHR ''e'' then at_index word index \<noteq> Some guessLetter
        else True)"

definition survives :: "string \<Rightarrow> string \<Rightarrow> string \<Rightarrow> bool" where
  "survives guess loweredScore word =
     ((\<forall>letter \<in> set word. letter \<notin> set (misses guess loweredScore))
      \<and> list_all (\<lambda>entry. survives_position entry word)
           (zip (zip_js guess loweredScore) [0..<length (zip_js guess loweredScore)]))"

subsection \<open>The filtering rule in the words of the specification\<close>

text \<open>
  The specification's feedback codes, with their letters (\<^verbatim>\<open>x\<close> a hit, \<^verbatim>\<open>i\<close> present,
  \<^verbatim>\<open>e\<close> absent), and its filtering rule: a letter of the guess is a duplicate when it
  occurs more than once in the guess; the letters scored absent that are no duplicates are
  excluded everywhere; each position then adds its own constraint.
\<close>

datatype FeedbackCode = Hit | Present | Absent

definition code_of :: "char \<Rightarrow> FeedbackCode option" where
  "code_of c = (if c = CHR ''x'' then Some Hit else if c = CHR ''i'' then Some Present
                else if c = CHR ''e'' then Some Absent else None)"

definition spec_duplicate_letter :: "string \<Rightarrow> char \<Rightarrow> bool" where
  "spec_duplicate_letter guess c = (1 < count_list guess c)"

definition spec_miss_letters :: "string \<Rightarrow> string \<Rightarrow> char list" where
  "spec_miss_letters guess feedback =
     [guess ! i. i \<leftarrow> [0..<length guess],
        code_of (feedback ! i) = Some Absent, \<not> spec_duplicate_letter guess (guess ! i)]"

definition spec_letter_at :: "string \<Rightarrow> nat \<Rightarrow> char \<Rightarrow> bool" where
  "spec_letter_at w i c = (i < length w \<and> w ! i = c)"

fun spec_positional :: "FeedbackCode \<Rightarrow> char \<Rightarrow> nat \<Rightarrow> string \<Rightarrow> bool" where
  "spec_positional Hit c i w = spec_letter_at w i c"
| "spec_positional Present c i w = (c \<in> set w \<and> \<not> spec_letter_at w i c)"
| "spec_positional Absent c i w = (\<not> spec_letter_at w i c)"

definition spec_global :: "string \<Rightarrow> string \<Rightarrow> string \<Rightarrow> bool" where
  "spec_global guess feedback w = (\<forall>c \<in> set (spec_miss_letters guess feedback). c \<notin> set w)"

definition spec_positions :: "string \<Rightarrow> string \<Rightarrow> string \<Rightarrow> bool" where
  "spec_positions guess feedback w =
     (\<forall>i \<in> set [0..<length guess].
        case code_of (feedback ! i) of
          Some code \<Rightarrow> spec_positional code (guess ! i) i w
        | None \<Rightarrow> True)"

subsection \<open>The ranking in the words of the specification\<close>

text \<open>
  The specification's order of desirability: a word ranks no lower than another when it has
  more distinct letters, or as many and a frequency score (the sum of the table entries of
  its letters, \<^const>\<open>letterFrequencyScore\<close>) that is not smaller.
\<close>

definition spec_ranks_no_lower :: "solver \<Rightarrow> string \<Rightarrow> string \<Rightarrow> bool" where
  "spec_ranks_no_lower s a b =
     (card (set b) < card (set a)
      \<or> (card (set b) = card (set a)
          \<and> (case (letterFrequencyScore s a, letterFrequencyScore s b) of
                (Num aScore, Num bScore) \<Rightarrow> bScore \<le> aScore
              | _ \<Rightarrow> False)))"

subsection \<open>Two solver states used in the examples\<close>

text \<open>
  A solver with three candidate words and no guesses yet (the state after
  \<^verbatim>\<open>new WordleSolver(words, "rebut").reset(["rugby", "debit", "rebut"])\<close>), and a
  solver with one guess in its history whose corpus is not in ranked order (the state after
  \<^verbatim>\<open>new WordleSolver(["aaabc", "abbcc", "bbbcz"], "abbcc")\<close>,
  \<^verbatim>\<open>score("yyyyy", "eeeee")\<close> and \<^verbatim>\<open>excludeLetters("z")\<close>).
\<close>

definition demo_solver :: solver where
  "demo_solver = \<lparr>corpus = [''rugby'', ''debit'', ''rebut''], startingWord = Some ''rebut'',
                   guessesAndScores = [], logging = False, guessLength = 5\<rparr>"

definition demo_filtered :: solver where
  "demo_filtered = \<lparr>corpus = [''abbcc'', ''aaabc''], startingWord = Some ''abbcc'',
                     guessesAndScores = [(''yyyyy'', ''eeeee'')], logging = False,
                     guessLength = 5\<rparr>"

section \<open>Properties\<close>

subsection \<open>Sorting keeps the words\<close>

lemma mset_insert_sorted: "mset (insert_sorted cmp x xs) = add_mset x (mset xs)"
  by (induction xs) simp_all

lemma mset_array_sort: "mset (array_sort cmp xs) = mset xs"
  by (induction xs) (simp_all add: mset_insert_sorted)

lemma length_array_sort: "length (array_sort cmp xs) = length xs"
  using mset_array_sort [of cmp xs] by (metis size_mset)

lemma set_array_sort: "set (array_sort cmp xs) = set xs"
  using mset_array_sort [of cmp xs] by (metis set_mset_mset)

lemma corpus_sort_solver:
  "corpus (sort_solver s) = array_sort (byFrequency (letterFrequency s None)) (corpus s)"
  by (simp add: sort_solver_def sortByCommonness_def)

lemma mset_corpus_sort_solver: "mset (corpus (sort_solver s)) = mset (corpus s)"
  by (simp add: corpus_sort_solver mset_array_sort)

lemma sort_solver_fields:
  "guessesAndScores (sort_solver s) = guessesAndScores s"
  "startingWord (sort_solver s) = startingWord s"
  "guessLength (sort_solver s) = guessLength s"
  "logging (sort_solver s) = logging s"
  by (simp_all add: sort_solver_def sortByCommonness_def)

subsection \<open>One call of \<^verbatim>\<open>score\<close> is one filter\<close>

lemma survives_position_fun:
  "survives_position e =
     (\<lambda>word. case e of ((guessLetter, scoreLetter), index) \<Rightarrow>
        if scoreLetter = Some CHR ''x'' then at_index word index = Some guessLetter
        else if scoreLetter = Some CHR ''i''
          then at_index word index \<noteq> Some guessLetter \<and> guessLetter \<in> set word
        else if scoreLetter = Some CHR ''e'' then at_index word index \<noteq> Some guessLetter
        else True)"
  by (simp add: fun_eq_iff survives_position_def)

lemma apply_position_filter:
  "apply_position e s = s\<lparr>corpus := filter (survives_position e) (corpus s)\<rparr>"
proof -
  obtain guessLetter scoreLetter index where e: "e = ((guessLetter, scoreLetter), index)"
    by (metis prod.collapse)
  show ?thesis
    unfolding e
    by (simp add: apply_position_def survives_position_fun keepWithCorrectLetter_def
        keepWithMisplacedLetter_def excludeWithLetter_def)
qed

lemma fold_apply_position:
  "fold apply_position es s
     = s\<lparr>corpus := filter (\<lambda>w. list_all (\<lambda>e. survives_position e w) es) (corpus s)\<rparr>"
proof (induction es arbitrary: s)
  case Nil
  then show ?case by simp
next
  case (Cons e es)
  have "fold apply_position (e # es) s = fold apply_position es (apply_position e s)"
    by simp
  also have "\<dots> = (apply_position e s)\<lparr>corpus :=
      filter (\<lambda>w. list_all (\<lambda>e. survives_position e w) es) (corpus (apply_position e s))\<rparr>"
    by (rule Cons.IH)
  also have "\<dots> = s\<lparr>corpus := filter (\<lambda>w. list_all (\<lambda>e. survives_position e w) (e # es)) (corpus s)\<rparr>"
    by (simp add: apply_position_filter conj_commute)
  finally show ?case .
qed

lemma survives_fun:
  "survives guess sc =
     (\<lambda>word. (\<forall>letter \<in> set word. letter \<notin> set (misses guess sc))
      \<and> list_all (\<lambda>entry. survives_position entry word)
           (zip (zip_js guess sc) [0..<length (zip_js guess sc)]))"
  by (simp add: fun_eq_iff survives_def)

lemma toLowerCase_score_letters:
  assumes "set sc \<subseteq> {CHR ''x'', CHR ''e'', CHR ''i''}"
  shows "toLowerCase sc = sc"
proof -
  have "toLowerCase_char c = c" if "c \<in> set sc" for c
  proof -
    from that assms have "c = CHR ''x'' \<or> c = CHR ''e'' \<or> c = CHR ''i''" by auto
    then show ?thesis
      by (auto simp: toLowerCase_char_def)
  qed
  then show ?thesis by (simp add: toLowerCase_def map_idI)
qed

lemma score_valid:
  assumes "length guess = guessLength s" "length sc = guessLength s"
    and "set sc \<subseteq> {CHR ''x'', CHR ''e'', CHR ''i''}"
  shows "score s guess sc =
           (None, sort_solver (s\<lparr>guessesAndScores := guessesAndScores s @ [(guess, sc)],
                                 corpus := filter (survives guess sc) (corpus s)\<rparr>))"
proof -
  have low: "toLowerCase sc = sc" using assms(3) by (rule toLowerCase_score_letters)
  have inv: "filter (\<lambda>l. l \<noteq> CHR ''x'' \<and> l \<noteq> CHR ''e'' \<and> l \<noteq> CHR ''i'') sc = []"
    using assms(3) by (auto simp: filter_empty_conv)
  have flt: "filter (\<lambda>x. (\<forall>letter \<in> set x. letter \<notin> set (misses guess sc)) \<and>
                  list_all (\<lambda>e. survives_position e x)
                    (zip (zip_js guess sc) [0..<length (zip_js guess sc)])) (corpus s)
             = filter (survives guess sc) (corpus s)"
    unfolding survives_fun by simp
  show ?thesis
    using assms(1,2)
    by (simp add: score_def low inv Let_def excludeLetters_def fold_apply_position flt)
qed

subsection \<open>The letters that occur twice in a guess\<close>

lemma count_list_pos: "0 < count_list xs c \<longleftrightarrow> c \<in> set xs"
  using count_list_0_iff [of xs c] by auto

lemma count_gt1_iff:
  "Suc 0 < count_list g c \<longleftrightarrow> (\<exists>i<length g. g ! i = c \<and> c \<in> set (drop (Suc i) g))"
proof (induction g)
  case Nil
  then show ?case by simp
next
  case (Cons x xs)
  show ?case
  proof (cases "x = c")
    case True
    then show ?thesis
      by (auto simp: Ex_less_Suc2 count_list_pos dest: in_set_dropD)
  next
    case False
    then show ?thesis
      using Cons.IH by (auto simp: Ex_less_Suc2)
  qed
qed

lemma duplicateLetters_iff:
  "c \<in> duplicateLetters g \<longleftrightarrow> (\<exists>i<length g. g ! i = c \<and> c \<in> set (drop (Suc i) g))"
proof
  assume "c \<in> duplicateLetters g"
  then obtain p where p: "p \<in> set (zip g [0..<length g])" "fst p = c"
      "fst p \<in> set (drop (snd p + 1) g)"
    by (auto simp: duplicateLetters_def)
  from p(1) obtain n where "g ! n = fst p" "[0..<length g] ! n = snd p" "n < length g"
    by (auto simp: in_set_zip)
  with p show "\<exists>i<length g. g ! i = c \<and> c \<in> set (drop (Suc i) g)"
    by auto
next
  assume "\<exists>i<length g. g ! i = c \<and> c \<in> set (drop (Suc i) g)"
  then obtain i where i: "i < length g" "g ! i = c" "c \<in> set (drop (Suc i) g)" by blast
  then have "(c, i) \<in> set (zip g [0..<length g])"
    by (auto simp: in_set_zip)
  with i(3) show "c \<in> duplicateLetters g"
    by (force simp: duplicateLetters_def)
qed

lemma duplicateLetters_count: "c \<in> duplicateLetters g \<longleftrightarrow> 1 < count_list g c"
  by (simp add: duplicateLetters_iff count_gt1_iff)

subsection \<open>Validation of the arguments of \<^verbatim>\<open>score\<close>\<close>

lemma invalid_letters_conv:
  "filter (\<lambda>l. l \<noteq> CHR ''x'' \<and> l \<noteq> CHR ''e'' \<and> l \<noteq> CHR ''i'') sc \<noteq> []
     \<longleftrightarrow> (\<exists>c \<in> set sc. c \<notin> {CHR ''x'', CHR ''e'', CHR ''i''})"
  by (auto simp: filter_empty_conv)

text \<open>
  What the code does: \<^verbatim>\<open>score(guess, score)\<close> throws exactly when the guess or the
  score string does not have the configured length, or the score string as given holds a
  character other than the lower-case \<^verbatim>\<open>x\<close>, \<^verbatim>\<open>e\<close>, \<^verbatim>\<open>i\<close>; and whenever it throws,
  the solver (corpus, history and every other field) is as it was before the call.
\<close>

lemma score_throws_iff:
  "(fst (score s guess scoreString) \<noteq> None \<longleftrightarrow>
      (length guess \<noteq> guessLength s \<or> length scoreString \<noteq> guessLength s
       \<or> (\<exists>c \<in> set scoreString. c \<notin> {CHR ''x'', CHR ''e'', CHR ''i''})))
   \<and> (fst (score s guess scoreString) \<noteq> None \<longrightarrow> snd (score s guess scoreString) = s)"
  using invalid_letters_conv [of scoreString]
  by (simp add: score_def Let_def)

text \<open>
  C5: a call can throw although the guess and the score string have the configured length
  and every character of the score string is in the alphabet once lowered: on the demo
  solver the guess \<^verbatim>\<open>abbey\<close> with the score \<^verbatim>\<open>eeXie\<close> throws for the letter \<^verbatim>\<open>X\<close>.
  The solver is left as it was.
\<close>

theorem score_raises_inside_alphabet:
  "length ''abbey'' = guessLength demo_solver
   \<and> length ''eeXie'' = guessLength demo_solver
   \<and> set (toLowerCase ''eeXie'') \<subseteq> {CHR ''x'', CHR ''e'', CHR ''i''}
   \<and> score demo_solver ''abbey'' ''eeXie'' = (Some (InvalidScoreLetters ''X''), demo_solver)"
  by code_simp

text \<open>
  C4: the score string is lowered (\<^verbatim>\<open>toLowerCase\<close>) before it is recorded and applied,
  but the check for invalid letters reads the string as it was given. On the demo solver the
  guess \<^verbatim>\<open>abbey\<close> with the score \<^verbatim>\<open>EEXIE\<close> throws and leaves the solver as it was, although
  the lowered string is \<^verbatim>\<open>eexie\<close>, which the same call accepts.
\<close>

theorem score_rejects_uppercase:
  "score demo_solver ''abbey'' ''EEXIE'' = (Some (InvalidScoreLetters ''EEXIE''), demo_solver)
   \<and> toLowerCase ''EEXIE'' = ''eexie''
   \<and> fst (score demo_solver ''abbey'' ''eexie'') = None"
  by code_simp

subsection \<open>The filter of one call, in the words of the specification\<close>

lemma zip_upt_index: "zip xs [0..<length xs] = map (\<lambda>i. (xs ! i, i)) [0..<length xs]"
  by (rule nth_equalityI) simp_all

lemma zip_js_index: "zip_js xs ys = map (\<lambda>i. (xs ! i, at_index ys i)) [0..<length xs]"
  by (simp add: zip_js_def zip_upt_index)

lemma length_zip_js: "length (zip_js xs ys) = length xs"
  by (simp add: zip_js_index)

lemma set_misses:
  "set (misses g sc)
     = {g ! i | i. i < length g \<and> at_index sc i = Some CHR ''e'' \<and> g ! i \<notin> duplicateLetters g}"
  by (force simp: misses_def zip_js_index)

lemma set_spec_miss_letters:
  "set (spec_miss_letters g sc)
     = {g ! i | i. i < length g \<and> sc ! i = CHR ''e'' \<and> \<not> 1 < count_list g (g ! i)}"
  by (auto simp: spec_miss_letters_def spec_duplicate_letter_def code_of_def split: if_splits)

lemma misses_spec:
  assumes "length sc = length g"
  shows "set (misses g sc) = set (spec_miss_letters g sc)"
  using assms
  by (auto simp: set_misses set_spec_miss_letters duplicateLetters_count at_index_def)

lemma positions_index:
  "list_all (\<lambda>entry. survives_position entry w) (zip (zip_js g sc) [0..<length (zip_js g sc)])
     \<longleftrightarrow> (\<forall>i<length g. survives_position ((g ! i, at_index sc i), i) w)"
proof -
  have "zip (zip_js g sc) [0..<length (zip_js g sc)]
      = map (\<lambda>i. ((g ! i, at_index sc i), i)) [0..<length g]"
    by (rule nth_equalityI) (simp_all add: zip_js_index)
  then show ?thesis
    by (auto simp: list_all_iff)
qed

lemma at_index_spec: "at_index w i = Some c \<longleftrightarrow> spec_letter_at w i c"
  by (auto simp: at_index_def spec_letter_at_def)

lemma position_spec:
  assumes "i < length sc" "sc ! i \<in> {CHR ''x'', CHR ''e'', CHR ''i''}"
  shows "survives_position ((c, at_index sc i), i) w
     \<longleftrightarrow> (case code_of (sc ! i) of Some code \<Rightarrow> spec_positional code c i w | None \<Rightarrow> True)"
proof -
  have a: "at_index sc i = Some (sc ! i)" using assms(1) by (simp add: at_index_def)
  from assms(2) consider "sc ! i = CHR ''x''" | "sc ! i = CHR ''e''" | "sc ! i = CHR ''i''"
    by auto
  then show ?thesis
    by cases (auto simp: a survives_position_def code_of_def at_index_spec)
qed

lemma survives_spec:
  assumes "length sc = length g" "set sc \<subseteq> {CHR ''x'', CHR ''e'', CHR ''i''}"
  shows "survives g sc w \<longleftrightarrow> spec_global g sc w \<and> spec_positions g sc w"
proof -
  have glob: "(\<forall>letter \<in> set w. letter \<notin> set (misses g sc)) \<longleftrightarrow> spec_global g sc w"
    unfolding spec_global_def misses_spec [OF assms(1)] by blast
  have "survives_position ((g ! i, at_index sc i), i) w
     \<longleftrightarrow> (case code_of (sc ! i) of Some code \<Rightarrow> spec_positional code (g ! i) i w | None \<Rightarrow> True)"
    if "i < length g" for i
  proof (rule position_spec)
    show "i < length sc" using that assms(1) by simp
    then show "sc ! i \<in> {CHR ''x'', CHR ''e'', CHR ''i''}"
      using assms(2) nth_mem by blast
  qed
  then have pos: "(\<forall>i<length g. survives_position ((g ! i, at_index sc i), i) w)
      \<longleftrightarrow> spec_positions g sc w"
    by (auto simp: spec_positions_def)
  show ?thesis
    by (simp add: survives_def glob positions_index pos)
qed

lemma filter_survives_spec:
  assumes "length sc = length g" "set sc \<subseteq> {CHR ''x'', CHR ''e'', CHR ''i''}"
  shows "filter (survives g sc) ws = filter (spec_positions g sc) (filter (spec_global g sc) ws)"
  using survives_spec [OF assms] by (simp add: conj_commute cong: filter_cong)

text \<open>
  C1: a valid call \<^verbatim>\<open>score(guess, feedback)\<close> throws nothing, records the pair, and
  leaves as corpus the ranking of the old corpus filtered in two stages: first the words
  holding a letter of the guess that is scored absent and occurs only once in the guess are
  removed; then each position keeps the words with the letter there (hit), with the letter
  somewhere but not there (present), or without the letter there (absent, also for a letter
  that occurs twice in the guess). The ranking only reorders: the corpus has exactly the
  filtered words.
\<close>

theorem score_filters_as_specified:
  assumes "length guess = guessLength s" and "length feedback = guessLength s"
    and "set feedback \<subseteq> {CHR ''x'', CHR ''e'', CHR ''i''}"
  shows "score s guess feedback =
           (None, sort_solver
              (s\<lparr>guessesAndScores := guessesAndScores s @ [(guess, feedback)],
                 corpus := filter (spec_positions guess feedback)
                             (filter (spec_global guess feedback) (corpus s))\<rparr>))
       \<and> mset (corpus (snd (score s guess feedback)))
           = mset (filter (spec_positions guess feedback)
                     (filter (spec_global guess feedback) (corpus s)))"
proof -
  have len: "length feedback = length guess" using assms(1,2) by simp
  have eq: "score s guess feedback =
           (None, sort_solver
              (s\<lparr>guessesAndScores := guessesAndScores s @ [(guess, feedback)],
                 corpus := filter (spec_positions guess feedback)
                             (filter (spec_global guess feedback) (corpus s))\<rparr>))"
    using score_valid [OF assms] filter_survives_spec [OF len assms(3)] by simp
  show ?thesis
    unfolding eq by (simp add: mset_corpus_sort_solver eq)
qed

text \<open>
  The guess \<^verbatim>\<open>abbey\<close> scored \<^verbatim>\<open>eexie\<close>: \<^verbatim>\<open>a\<close> and \<^verbatim>\<open>y\<close> are excluded everywhere, the
  first \<^verbatim>\<open>b\<close> only at its position; \<^verbatim>\<open>rugby\<close> goes, \<^verbatim>\<open>debit\<close> and \<^verbatim>\<open>rebut\<close> stay.
\<close>

theorem score_filters_as_specified_witness:
  "length ''abbey'' = guessLength demo_solver \<and> length ''eexie'' = guessLength demo_solver
   \<and> set ''eexie'' \<subseteq> {CHR ''x'', CHR ''e'', CHR ''i''}
   \<and> score demo_solver ''abbey'' ''eexie'' =
        (None, sort_solver (demo_solver\<lparr>guessesAndScores := [(''abbey'', ''eexie'')],
                                          corpus := [''debit'', ''rebut'']\<rparr>))
   \<and> mset (corpus (snd (score demo_solver ''abbey'' ''eexie''))) = {#''debit'', ''rebut''#}"
proof -
  have h: "length ''abbey'' = guessLength demo_solver"
    "length ''eexie'' = guessLength demo_solver"
    "set ''eexie'' \<subseteq> {CHR ''x'', CHR ''e'', CHR ''i''}"
    by (simp_all add: demo_solver_def)
  have kept: "filter (spec_positions ''abbey'' ''eexie'')
                (filter (spec_global ''abbey'' ''eexie'') (corpus demo_solver))
              = [''debit'', ''rebut'']"
    by code_simp
  have hist: "guessesAndScores demo_solver = []"
    by (simp add: demo_solver_def)
  have t: "score demo_solver ''abbey'' ''eexie'' =
           (None, sort_solver
              (demo_solver\<lparr>guessesAndScores := guessesAndScores demo_solver @ [(''abbey'', ''eexie'')],
                 corpus := filter (spec_positions ''abbey'' ''eexie'')
                             (filter (spec_global ''abbey'' ''eexie'') (corpus demo_solver))\<rparr>))
       \<and> mset (corpus (snd (score demo_solver ''abbey'' ''eexie'')))
           = mset (filter (spec_positions ''abbey'' ''eexie'')
                     (filter (spec_global ''abbey'' ''eexie'') (corpus demo_solver)))"
    by (rule score_filters_as_specified [OF h])
  have m: "mset [''debit'', ''rebut''] = {#''debit'', ''rebut''#}" by simp
  from t h show ?thesis
    unfolding kept hist append_Nil m by blast
qed

subsection \<open>The corpus never grows\<close>

lemma filter_shorter_iff: "length (filter P xs) < length xs \<longleftrightarrow> (\<exists>x \<in> set xs. \<not> P x)"
proof
  assume "length (filter P xs) < length xs"
  then have "filter P xs \<noteq> xs" by auto
  then show "\<exists>x \<in> set xs. \<not> P x" by (auto simp: filter_id_conv)
next
  assume "\<exists>x \<in> set xs. \<not> P x"
  then show "length (filter P xs) < length xs" by (auto simp: length_filter_less)
qed

text \<open>
  C6: after a valid call \<^verbatim>\<open>score(guess, feedback)\<close> the corpus is no longer than before,
  and it is strictly shorter exactly when some word of the old corpus is inconsistent with
  the feedback as the specification reads it: the word holds a letter that is excluded
  everywhere, or breaks the constraint of some position.
\<close>

theorem score_shrinks_corpus:
  assumes "length guess = guessLength s" and "length feedback = guessLength s"
    and "set feedback \<subseteq> {CHR ''x'', CHR ''e'', CHR ''i''}"
  shows "length (corpus (snd (score s guess feedback))) \<le> length (corpus s)
       \<and> (length (corpus (snd (score s guess feedback))) < length (corpus s)
            \<longleftrightarrow> (\<exists>w \<in> set (corpus s).
                   \<not> (spec_global guess feedback w \<and> spec_positions guess feedback w)))"
proof -
  have len: "length feedback = length guess" using assms(1,2) by simp
  have "filter (survives guess feedback) (corpus s)
      = filter (\<lambda>w. spec_global guess feedback w \<and> spec_positions guess feedback w) (corpus s)"
    by (rule filter_cong) (simp_all add: survives_spec [OF len assms(3)])
  then have "length (corpus (snd (score s guess feedback)))
      = length (filter (\<lambda>w. spec_global guess feedback w \<and> spec_positions guess feedback w)
                  (corpus s))"
    using score_valid [OF assms] by (simp add: corpus_sort_solver length_array_sort)
  then show ?thesis
    by (simp add: filter_shorter_iff)
qed

text \<open>
  The guess \<^verbatim>\<open>yzzzz\<close> scored all absent: \<^verbatim>\<open>rugby\<close> meets every positional constraint
  and goes only because \<^verbatim>\<open>y\<close>, which occurs once in the guess, is excluded everywhere.
\<close>

theorem score_shrinks_corpus_witness:
  "\<not> spec_global ''yzzzz'' ''eeeee'' ''rugby''
   \<and> spec_positions ''yzzzz'' ''eeeee'' ''rugby''
   \<and> (\<exists>w \<in> set (corpus demo_solver).
         \<not> (spec_global ''yzzzz'' ''eeeee'' w \<and> spec_positions ''yzzzz'' ''eeeee'' w))
   \<and> length (corpus (snd (score demo_solver ''yzzzz'' ''eeeee''))) < length (corpus demo_solver)
   \<and> corpus (snd (score demo_solver ''yzzzz'' ''eeeee'')) = [''debit'', ''rebut'']"
proof -
  have h: "length ''yzzzz'' = guessLength demo_solver"
    "length ''eeeee'' = guessLength demo_solver"
    "set ''eeeee'' \<subseteq> {CHR ''x'', CHR ''e'', CHR ''i''}"
    by (simp_all add: demo_solver_def)
  have g: "\<not> spec_global ''yzzzz'' ''eeeee'' ''rugby''" by code_simp
  have p: "spec_positions ''yzzzz'' ''eeeee'' ''rugby''" by code_simp
  have m: "''rugby'' \<in> set (corpus demo_solver)" by (simp add: demo_solver_def)
  from g m have out: "\<exists>w \<in> set (corpus demo_solver).
         \<not> (spec_global ''yzzzz'' ''eeeee'' w \<and> spec_positions ''yzzzz'' ''eeeee'' w)"
    by blast
  have after: "corpus (snd (score demo_solver ''yzzzz'' ''eeeee'')) = [''debit'', ''rebut'']"
    by code_simp
  from score_shrinks_corpus [OF h] out
  have "length (corpus (snd (score demo_solver ''yzzzz'' ''eeeee''))) < length (corpus demo_solver)"
    by blast
  with g p out after show ?thesis by blast
qed

subsection \<open>Letter frequencies\<close>

lemma fold_count_letter:
  assumes "\<forall>n. lf c = Some n \<longrightarrow> 0 \<le> n"
  shows "fold (\<lambda>l lf. count_letter lf l) ls lf c =
           (if c \<in> set ls
            then Some ((case lf c of None \<Rightarrow> 1 | Some n \<Rightarrow> if n = 0 then 1 else n)
                       + int (count_list ls c))
            else lf c)"
  using assms
proof (induction ls arbitrary: lf)
  case Nil
  then show ?case by simp
next
  case (Cons l ls)
  let ?lf = "count_letter lf l"
  have pre: "\<forall>n. ?lf c = Some n \<longrightarrow> 0 \<le> n"
    using Cons.prems by (auto simp: count_letter_def Let_def split: option.splits)
  have "fold (\<lambda>l lf. count_letter lf l) (l # ls) lf c = fold (\<lambda>l lf. count_letter lf l) ls ?lf c"
    by simp
  also have "\<dots> = (if c \<in> set ls
            then Some ((case ?lf c of None \<Rightarrow> 1 | Some n \<Rightarrow> if n = 0 then 1 else n)
                       + int (count_list ls c))
            else ?lf c)"
    using pre by (rule Cons.IH)
  also have "\<dots> = (if c \<in> set (l # ls)
            then Some ((case lf c of None \<Rightarrow> 1 | Some n \<Rightarrow> if n = 0 then 1 else n)
                       + int (count_list (l # ls) c))
            else lf c)"
    using Cons.prems
    by (auto simp: count_letter_def Let_def count_list_0_iff split: option.splits)
  finally show ?case .
qed

lemma count_word_None: "count_word None w lf = fold (\<lambda>l lf. count_letter lf l) w lf"
proof -
  have fst_zip: "map fst (zip w [0..<length w]) = w" by simp
  have "count_word None w lf
      = fold ((\<lambda>l lf. count_letter lf l) \<circ> fst) (zip w [0..<length w]) lf"
    by (simp add: count_word_def comp_def case_prod_unfold)
  also have "\<dots> = fold (\<lambda>l lf. count_letter lf l) (map fst (zip w [0..<length w])) lf"
    by (simp only: fold_map)
  also have "\<dots> = fold (\<lambda>l lf. count_letter lf l) w lf"
    unfolding fst_zip ..
  finally show ?thesis .
qed

lemma fold_fold_concat: "fold (fold f) xss a = fold f (concat xss) a"
  by (induction xss arbitrary: a) simp_all

lemma letterFrequency_None_fold:
  "letterFrequency s None = fold (\<lambda>l lf. count_letter lf l) (concat (corpus s)) Map.empty"
proof -
  have "count_word None = fold (\<lambda>l lf. count_letter lf l)"
    by (simp add: fun_eq_iff count_word_None)
  then show ?thesis
    by (simp add: letterFrequency_def fold_fold_concat)
qed

lemma letterFrequency_None_value:
  "letterFrequency s None c =
     (if c \<in> set (concat (corpus s)) then Some (1 + int (count_list (concat (corpus s)) c))
      else None)"
  by (simp add: letterFrequency_None_fold fold_count_letter)

lemma fold_add_lookup_NaN: "fold (\<lambda>l acc. add_lookup acc (lf l)) word NaN = NaN"
  by (induction word) simp_all

lemma fold_add_lookup:
  "fold (\<lambda>l acc. add_lookup acc (lf l)) word (Num a) =
     (if \<forall>l \<in> set word. lf l \<noteq> None then Num (a + sum_list (map (\<lambda>l. the (lf l)) word))
      else NaN)"
proof (induction word arbitrary: a)
  case Nil
  then show ?case by simp
next
  case (Cons l word)
  show ?case
  proof (cases "lf l")
    case None
    then show ?thesis by (simp add: fold_add_lookup_NaN)
  next
    case (Some n)
    then show ?thesis by (simp add: Cons.IH)
  qed
qed

lemma fold_only_index:
  "fold (\<lambda>i a. if k \<noteq> i then a else g i a) [0..<n] a = (if k < n then g k a else a)"
  by (induction n) auto

lemma count_word_Some:
  "count_word (Some k) w lf = (if k < length w then count_letter lf (w ! k) else lf)"
proof -
  have "count_word (Some k) w lf
      = fold ((\<lambda>(letter, index) lf. if k \<noteq> index then lf else count_letter lf letter)
              \<circ> (\<lambda>i. (w ! i, i))) [0..<length w] lf"
    unfolding count_word_def zip_upt_index by (simp only: fold_map) auto
  also have "\<dots> = fold (\<lambda>i lf. if k \<noteq> i then lf else count_letter lf (w ! i)) [0..<length w] lf"
    by (simp add: comp_def)
  finally show ?thesis by (simp only: fold_only_index)
qed

lemma letterFrequency_Some_fold:
  "letterFrequency s (Some k) =
     fold (\<lambda>l lf. count_letter lf l)
       (concat (map (\<lambda>w. case at_index w k of None \<Rightarrow> [] | Some c \<Rightarrow> [c]) (corpus s)))
       Map.empty"
proof -
  have "fold (count_word (Some k)) ws lf =
     fold (\<lambda>l lf. count_letter lf l)
       (concat (map (\<lambda>w. case at_index w k of None \<Rightarrow> [] | Some c \<Rightarrow> [c]) ws)) lf" for ws lf
    by (induction ws arbitrary: lf) (simp_all add: count_word_Some at_index_def)
  then show ?thesis by (simp add: letterFrequency_def)
qed

lemma letterFrequency_Some_value:
  "letterFrequency s (Some k) c =
     (if \<exists>w \<in> set (corpus s). at_index w k = Some c
      then Some (1 + int (length (filter (\<lambda>w. at_index w k = Some c) (corpus s))))
      else None)"
proof -
  let ?L = "\<lambda>ws. concat (map (\<lambda>w. case at_index w k of None \<Rightarrow> [] | Some c \<Rightarrow> [c]) ws)"
  have mem: "c \<in> set (?L ws) \<longleftrightarrow> (\<exists>w \<in> set ws. at_index w k = Some c)" for ws
    by (induction ws) (auto split: option.splits)
  have cnt: "count_list (?L ws) c = length (filter (\<lambda>w. at_index w k = Some c) ws)" for ws
    by (induction ws) (auto split: option.splits)
  have "fold (\<lambda>l lf. count_letter lf l) (?L (corpus s)) Map.empty c
      = (if c \<in> set (?L (corpus s)) then Some (1 + int (count_list (?L (corpus s)) c))
         else None)"
    by (subst fold_count_letter) simp_all
  then show ?thesis
    by (simp only: letterFrequency_Some_fold mem cnt)
qed

text \<open>
  C3: the table of \<^verbatim>\<open>letterFrequency\<close> is one above the number of occurrences, as
  the two lemmas above say for every corpus. In the demo corpus the letter \<^verbatim>\<open>g\<close>
  occurs once and the table holds 2 for it; two words have \<^verbatim>\<open>r\<close> at index 0 and the
  table for that index holds 3; and \<^verbatim>\<open>g\<close>, which no word has at index 0, has no entry
  in that table.
\<close>

theorem letterFrequency_counts_one_too_many:
  "count_list (concat (corpus demo_solver)) CHR ''g'' = 1
   \<and> letterFrequency demo_solver None CHR ''g'' = Some 2
   \<and> length (filter (\<lambda>w. at_index w 0 = Some CHR ''r'') (corpus demo_solver)) = 2
   \<and> letterFrequency demo_solver (Some 0) CHR ''r'' = Some 3
   \<and> letterFrequency demo_solver (Some 0) CHR ''g'' = None"
  by code_simp

text \<open>
  C9: \<^verbatim>\<open>letterFrequencyScore(word)\<close> is \<^verbatim>\<open>NaN\<close> as soon as the word has a letter that
  occurs in no word of the corpus, and a number (the sum of the table entries of its
  letters) when every letter of the word occurs in the corpus.
\<close>

theorem letterFrequencyScore_NaN:
  "((\<exists>c \<in> set word. \<forall>w \<in> set (corpus s). c \<notin> set w)
      \<longrightarrow> letterFrequencyScore s word = NaN)
   \<and> ((\<forall>c \<in> set word. \<exists>w \<in> set (corpus s). c \<in> set w)
      \<longrightarrow> letterFrequencyScore s word
            = Num (sum_list (map (\<lambda>c. 1 + int (count_list (concat (corpus s)) c)) word)))"
proof -
  have "sum_list (map (\<lambda>l. the (letterFrequency s None l)) word)
      = sum_list (map (\<lambda>c. 1 + int (count_list (concat (corpus s)) c)) word)"
    if "\<forall>c \<in> set word. \<exists>w \<in> set (corpus s). c \<in> set w"
    using that by (intro arg_cong [where f = sum_list] map_cong refl)
      (auto simp: letterFrequency_None_value)
  then show ?thesis
    by (auto simp: letterFrequencyScore_def fold_add_lookup letterFrequency_None_value)
qed

theorem letterFrequencyScore_NaN_witness:
  "(\<exists>c \<in> set ''mogul''. \<forall>w \<in> set (corpus demo_solver). c \<notin> set w)
   \<and> letterFrequencyScore demo_solver ''mogul'' = NaN
   \<and> letterFrequencyScore demo_solver ''bud'' = Num 9"
proof -
  have missing: "\<exists>c \<in> set ''mogul''. \<forall>w \<in> set (corpus demo_solver). c \<notin> set w"
    by code_simp
  have present: "\<forall>c \<in> set ''bud''. \<exists>w \<in> set (corpus demo_solver). c \<in> set w"
    by code_simp
  have total: "sum_list (map (\<lambda>c. 1 + int (count_list (concat (corpus demo_solver)) c)) ''bud'')
               = 9"
    by code_simp
  from letterFrequencyScore_NaN [of "''mogul''" demo_solver] missing
  have a: "letterFrequencyScore demo_solver ''mogul'' = NaN" by blast
  from letterFrequencyScore_NaN [of "''bud''" demo_solver] present
  have b: "letterFrequencyScore demo_solver ''bud'' = Num 9"
    unfolding total by blast
  from missing a b show ?thesis by blast
qed

subsection \<open>Ranking twice is ranking once\<close>

text \<open>
  On the words of the corpus every letter is in the table, so the comparator never gives
  \<^verbatim>\<open>NaN\<close> there and orders the words totally: first by the number of distinct letters,
  then by the sum of the table entries.
\<close>

lemma set_insert_sorted: "set (insert_sorted cmp x xs) = insert x (set xs)"
  using mset_insert_sorted [of cmp x xs] by (metis set_mset_mset set_mset_add_mset_insert)

lemma sorted_insert_sorted:
  assumes tot: "\<And>a b. a \<in> A \<Longrightarrow> b \<in> A \<Longrightarrow> not_after (cmp a b) \<or> not_after (cmp b a)"
    and trans: "\<And>a b c. a \<in> A \<Longrightarrow> b \<in> A \<Longrightarrow> c \<in> A \<Longrightarrow>
                  not_after (cmp a b) \<Longrightarrow> not_after (cmp b c) \<Longrightarrow> not_after (cmp a c)"
    and "x \<in> A" "set xs \<subseteq> A" "sorted_wrt (\<lambda>a b. not_after (cmp a b)) xs"
  shows "sorted_wrt (\<lambda>a b. not_after (cmp a b)) (insert_sorted cmp x xs)"
  using assms(3-)
proof (induction xs)
  case Nil
  then show ?case by simp
next
  case (Cons y ys)
  show ?case
  proof (cases "not_after (cmp x y)")
    case True
    have "not_after (cmp x z)" if "z \<in> set ys" for z
    proof -
      have "not_after (cmp y z)" using Cons.prems(3) that by simp
      with True show ?thesis using trans [of x y z] Cons.prems(1,2) that by auto
    qed
    with True Cons.prems(3) show ?thesis by simp
  next
    case False
    then have yx: "not_after (cmp y x)" using tot [of x y] Cons.prems(1,2) by auto
    have "sorted_wrt (\<lambda>a b. not_after (cmp a b)) (insert_sorted cmp x ys)"
      using Cons.IH Cons.prems by simp
    with False yx Cons.prems(3) show ?thesis
      by (simp add: set_insert_sorted)
  qed
qed

lemma sorted_array_sort:
  assumes tot: "\<And>a b. a \<in> A \<Longrightarrow> b \<in> A \<Longrightarrow> not_after (cmp a b) \<or> not_after (cmp b a)"
    and trans: "\<And>a b c. a \<in> A \<Longrightarrow> b \<in> A \<Longrightarrow> c \<in> A \<Longrightarrow>
                  not_after (cmp a b) \<Longrightarrow> not_after (cmp b c) \<Longrightarrow> not_after (cmp a c)"
    and "set xs \<subseteq> A"
  shows "sorted_wrt (\<lambda>a b. not_after (cmp a b)) (array_sort cmp xs)"
  using assms(3)
proof (induction xs)
  case Nil
  then show ?case by simp
next
  case (Cons x xs)
  have "sorted_wrt (\<lambda>a b. not_after (cmp a b)) (insert_sorted cmp x (array_sort cmp xs))"
  proof (rule sorted_insert_sorted [where A = A])
    show "x \<in> A" using Cons.prems by simp
    show "set (array_sort cmp xs) \<subseteq> A" using Cons.prems by (simp add: set_array_sort)
    show "sorted_wrt (\<lambda>a b. not_after (cmp a b)) (array_sort cmp xs)"
      using Cons.IH Cons.prems by simp
  qed (use tot trans in blast)+
  then show ?case by simp
qed

lemma array_sort_sorted:
  "sorted_wrt (\<lambda>a b. not_after (cmp a b)) xs \<Longrightarrow> array_sort cmp xs = xs"
proof (induction xs)
  case Nil
  then show ?case by simp
next
  case (Cons x xs)
  then have "array_sort cmp (x # xs) = insert_sorted cmp x xs" by simp
  also have "\<dots> = x # xs"
    using Cons.prems by (cases xs) simp_all
  finally show ?case .
qed



lemma letterFrequency_defined:
  "w \<in> set (corpus s) \<Longrightarrow> \<forall>l \<in> set w. letterFrequency s None l \<noteq> None"
  by (auto simp: letterFrequency_None_value)

lemma not_after_byFrequency:
  assumes "\<forall>l \<in> set a. lf l \<noteq> None" "\<forall>l \<in> set b. lf l \<noteq> None"
  shows "not_after (byFrequency lf a b) \<longleftrightarrow>
           card (set b) < card (set a)
           \<or> (card (set b) = card (set a)
               \<and> sum_list (map (\<lambda>l. the (lf l)) b) \<le> sum_list (map (\<lambda>l. the (lf l)) a))"
  using assms
  by (auto simp: byFrequency_def Let_def fold_add_lookup not_after_def)

lemma count_concat_perm:
  assumes "mset xss = mset yss"
  shows "count_list (concat xss) c = count_list (concat yss) c"
proof -
  have "count_list (concat zss) c = sum_list (map (\<lambda>w. count_list w c) zss)" for zss
    by (induction zss) simp_all
  moreover have "sum_list (map (\<lambda>w. count_list w c) xss) = sum_list (map (\<lambda>w. count_list w c) yss)"
    using assms by (metis mset_map sum_mset_sum_list)
  ultimately show ?thesis by simp
qed

lemma letterFrequency_perm:
  assumes "mset (corpus s) = mset (corpus t)"
  shows "letterFrequency s None = letterFrequency t None"
proof
  fix c
  have "set (corpus s) = set (corpus t)" using assms by (metis set_mset_mset)
  then show "letterFrequency s None c = letterFrequency t None c"
    using count_concat_perm [OF assms, of c] by (simp add: letterFrequency_None_value)
qed

lemma sort_solver_idem: "sort_solver (sort_solver s) = sort_solver s"
proof -
  let ?lf = "letterFrequency s None"
  let ?cmp = "byFrequency ?lf"
  have lf: "letterFrequency (sort_solver s) None = ?lf"
    by (rule letterFrequency_perm) (simp add: mset_corpus_sort_solver)
  have srt: "sorted_wrt (\<lambda>a b. not_after (?cmp a b)) (array_sort ?cmp (corpus s))"
  proof (rule sorted_array_sort [where A = "set (corpus s)"])
    fix a b assume "a \<in> set (corpus s)" "b \<in> set (corpus s)"
    then show "not_after (?cmp a b) \<or> not_after (?cmp b a)"
      using letterFrequency_defined [of _ s] by (simp add: not_after_byFrequency, linarith)
  next
    fix a b c assume "a \<in> set (corpus s)" "b \<in> set (corpus s)" "c \<in> set (corpus s)"
      "not_after (?cmp a b)" "not_after (?cmp b c)"
    then show "not_after (?cmp a c)"
      using letterFrequency_defined [of _ s] by (simp add: not_after_byFrequency, linarith)
  qed simp
  have "corpus (sort_solver (sort_solver s)) = corpus (sort_solver s)"
    using array_sort_sorted [OF srt] by (simp add: corpus_sort_solver lf)
  then show ?thesis
    by (simp add: sort_solver_def sortByCommonness_def)
qed

subsection \<open>Replaying the history\<close>

lemma construct_eq:
  "construct corpus0 sw lg =
     (sort_solver \<lparr>corpus = corpus0, startingWord = None, guessesAndScores = [],
                   logging = lg, guessLength = 5\<rparr>)
     \<lparr>startingWord :=
        (case sw of Some w \<Rightarrow> Some w
         | None \<Rightarrow> first_or_null (corpus (sort_solver
               \<lparr>corpus = corpus0, startingWord = None, guessesAndScores = [],
                 logging = lg, guessLength = 5\<rparr>)))\<rparr>"
  by (simp add: construct_def reset_def getSolutions_def Let_def sort_solver_idem
      split: option.splits)

lemma corpus_sort_solver_cong:
  "corpus s = corpus t \<Longrightarrow> corpus (sort_solver s) = corpus (sort_solver t)"
  by (simp add: corpus_sort_solver letterFrequency_def)

lemma construct_fields:
  "corpus (construct corpus0 sw lg) = corpus (construct corpus0 sw' lg')"
  "guessesAndScores (construct corpus0 sw lg) = []"
  "guessLength (construct corpus0 sw lg) = 5"
  by (simp_all add: construct_eq sort_solver_fields corpus_sort_solver_cong)

lemma score_valid_fields:
  assumes "length guess = guessLength s" "length sc = guessLength s"
    and "set sc \<subseteq> {CHR ''x'', CHR ''e'', CHR ''i''}"
  shows "fst (score s guess sc) = None"
    and "guessesAndScores (snd (score s guess sc)) = guessesAndScores s @ [(guess, sc)]"
    and "guessLength (snd (score s guess sc)) = guessLength s"
    and "corpus (snd (score s guess sc))
          = corpus (sort_solver (s\<lparr>corpus := filter (survives guess sc) (corpus s)\<rparr>))"
proof -
  note eq = score_valid [OF assms]
  show "fst (score s guess sc) = None" by (simp add: eq)
  show "guessesAndScores (snd (score s guess sc)) = guessesAndScores s @ [(guess, sc)]"
    by (simp add: eq sort_solver_fields)
  show "guessLength (snd (score s guess sc)) = guessLength s"
    by (simp add: eq sort_solver_fields)
  have "corpus (sort_solver (s\<lparr>guessesAndScores := guessesAndScores s @ [(guess, sc)],
                 corpus := filter (survives guess sc) (corpus s)\<rparr>))
      = corpus (sort_solver (s\<lparr>corpus := filter (survives guess sc) (corpus s)\<rparr>))"
    by (rule corpus_sort_solver_cong) simp
  then show "corpus (snd (score s guess sc))
          = corpus (sort_solver (s\<lparr>corpus := filter (survives guess sc) (corpus s)\<rparr>))"
    by (simp add: eq)
qed

lemma score_all_valid:
  assumes "\<forall>(guess, sc) \<in> set ps. length guess = guessLength s \<and> length sc = guessLength s
             \<and> set sc \<subseteq> {CHR ''x'', CHR ''e'', CHR ''i''}"
  shows "fst (score_all s ps) = None
       \<and> guessesAndScores (snd (score_all s ps)) = guessesAndScores s @ ps
       \<and> guessLength (snd (score_all s ps)) = guessLength s"
  using assms
proof (induction ps arbitrary: s)
  case Nil
  then show ?case by simp
next
  case (Cons p ps)
  obtain guess sc where p: "p = (guess, sc)" by (cases p)
  have v: "length guess = guessLength s" "length sc = guessLength s"
    "set sc \<subseteq> {CHR ''x'', CHR ''e'', CHR ''i''}"
    using Cons.prems p by auto
  obtain s' where step: "score s guess sc = (None, s')"
    using score_valid_fields(1) [OF v] by (cases "score s guess sc") simp
  have gl: "guessLength s' = guessLength s"
    using score_valid_fields(3) [OF v] by (simp add: step)
  have hist: "guessesAndScores s' = guessesAndScores s @ [(guess, sc)]"
    using score_valid_fields(2) [OF v] by (simp add: step)
  have "\<forall>(guess, sc) \<in> set ps. length guess = guessLength s' \<and> length sc = guessLength s'
             \<and> set sc \<subseteq> {CHR ''x'', CHR ''e'', CHR ''i''}"
    using Cons.prems gl by auto
  from Cons.IH [OF this] show ?case
    by (simp add: p step gl hist)
qed

lemma score_all_corpus_cong:
  assumes "\<forall>(guess, sc) \<in> set ps. length guess = guessLength s \<and> length sc = guessLength s
             \<and> set sc \<subseteq> {CHR ''x'', CHR ''e'', CHR ''i''}"
    and "corpus s = corpus t" "guessLength s = guessLength t"
  shows "corpus (snd (score_all s ps)) = corpus (snd (score_all t ps))"
  using assms
proof (induction ps arbitrary: s t)
  case Nil
  then show ?case by simp
next
  case (Cons p ps)
  obtain guess sc where p: "p = (guess, sc)" by (cases p)
  have v: "length guess = guessLength s" "length sc = guessLength s"
    "set sc \<subseteq> {CHR ''x'', CHR ''e'', CHR ''i''}"
    using Cons.prems p by auto
  have v': "length guess = guessLength t" "length sc = guessLength t"
    using v Cons.prems(3) by simp_all
  obtain s' where step: "score s guess sc = (None, s')"
    using score_valid_fields(1) [OF v] by (cases "score s guess sc") simp
  obtain t' where step': "score t guess sc = (None, t')"
    using score_valid_fields(1) [OF v' v(3)] by (cases "score t guess sc") simp
  have gl: "guessLength s' = guessLength s" "guessLength t' = guessLength t"
    using score_valid_fields(3) [OF v] score_valid_fields(3) [OF v' v(3)]
    by (simp_all add: step step')
  have "corpus (sort_solver (s\<lparr>corpus := filter (survives guess sc) (corpus s)\<rparr>))
      = corpus (sort_solver (t\<lparr>corpus := filter (survives guess sc) (corpus t)\<rparr>))"
    by (rule corpus_sort_solver_cong) (simp add: Cons.prems(2))
  then have c: "corpus s' = corpus t'"
    using score_valid_fields(4) [OF v] score_valid_fields(4) [OF v' v(3)]
    by (simp add: step step')
  have "\<forall>(guess, sc) \<in> set ps. length guess = guessLength s' \<and> length sc = guessLength s'
             \<and> set sc \<subseteq> {CHR ''x'', CHR ''e'', CHR ''i''}"
    using Cons.prems(1) gl by auto
  from Cons.IH [OF this c] gl Cons.prems(3)
  show ?case by (simp add: p step step')
qed

text \<open>
  C2: on a solver constructed from a corpus, a chain of valid calls of \<^verbatim>\<open>score\<close> throws
  nothing and records exactly the pairs it was given, in order; and replaying the recorded
  history on a fresh solver constructed from the same corpus (whatever its starting word and
  logging flag) throws nothing and ends with the same corpus, word for word in the same
  order.
\<close>

theorem incremental_equals_replay:
  assumes "\<forall>(guess, feedback) \<in> set pairs. length guess = 5 \<and> length feedback = 5
             \<and> set feedback \<subseteq> {CHR ''x'', CHR ''e'', CHR ''i''}"
  shows "fst (score_all (construct corpus0 sw lg) pairs) = None
       \<and> guessesAndScores (snd (score_all (construct corpus0 sw lg) pairs)) = pairs
       \<and> fst (score_all (construct corpus0 sw' lg')
                (guessesAndScores (snd (score_all (construct corpus0 sw lg) pairs)))) = None
       \<and> corpus (snd (score_all (construct corpus0 sw' lg')
                (guessesAndScores (snd (score_all (construct corpus0 sw lg) pairs)))))
           = corpus (snd (score_all (construct corpus0 sw lg) pairs))"
proof -
  have v: "\<forall>(guess, sc) \<in> set pairs. length guess = guessLength (construct corpus0 a b)
             \<and> length sc = guessLength (construct corpus0 a b)
             \<and> set sc \<subseteq> {CHR ''x'', CHR ''e'', CHR ''i''}" for a b
    using assms by (simp add: construct_fields)
  have h: "guessesAndScores (snd (score_all (construct corpus0 sw lg) pairs)) = pairs"
    using score_all_valid [OF v [of sw lg]] by (simp add: construct_fields)
  have c: "corpus (snd (score_all (construct corpus0 sw' lg') pairs))
         = corpus (snd (score_all (construct corpus0 sw lg) pairs))"
    by (rule score_all_corpus_cong [OF v]) (simp_all add: construct_fields(3), rule construct_fields(1))
  show ?thesis
    using score_all_valid [OF v [of sw lg]] score_all_valid [OF v [of sw' lg']]
    by (simp add: h c)
qed

theorem incremental_equals_replay_witness:
  "guessesAndScores (snd (score_all (construct [''rugby'', ''debit'', ''rebut''] None False)
         [(''abbey'', ''eexie''), (''debit'', ''exxex'')]))
       = [(''abbey'', ''eexie''), (''debit'', ''exxex'')]
   \<and> corpus (snd (score_all (construct [''rugby'', ''debit'', ''rebut''] (Some ''rugby'') True)
         (guessesAndScores
            (snd (score_all (construct [''rugby'', ''debit'', ''rebut''] None False)
               [(''abbey'', ''eexie''), (''debit'', ''exxex'')])))))
       = [''rebut'']"
proof -
  have v: "\<forall>(guess, feedback) \<in> set [(''abbey'', ''eexie''), (''debit'', ''exxex'')].
       length guess = 5 \<and> length feedback = 5
       \<and> set feedback \<subseteq> {CHR ''x'', CHR ''e'', CHR ''i''}"
    by simp
  have run: "corpus (snd (score_all (construct [''rugby'', ''debit'', ''rebut''] None False)
         [(''abbey'', ''eexie''), (''debit'', ''exxex'')])) = [''rebut'']"
    by code_simp
  note t = incremental_equals_replay [OF v, of "[''rugby'', ''debit'', ''rebut'']" None False
      "Some ''rugby''" True]
  from t have replay: "corpus (snd (score_all (construct [''rugby'', ''debit'', ''rebut''] (Some ''rugby'') True)
         (guessesAndScores
            (snd (score_all (construct [''rugby'', ''debit'', ''rebut''] None False)
               [(''abbey'', ''eexie''), (''debit'', ''exxex'')])))))
       = [''rebut'']"
    unfolding run by blast
  from t replay show ?thesis by blast
qed

subsection \<open>The best guess\<close>

lemma first_or_null_None: "first_or_null xs = None \<longleftrightarrow> xs = []"
  by (cases xs) (simp_all add: first_or_null_def)

lemma corpus_sort_solver_Nil: "corpus (sort_solver s) = [] \<longleftrightarrow> corpus s = []"
  using length_array_sort [of "byFrequency (letterFrequency s None)" "corpus s"]
  by (simp add: corpus_sort_solver flip: length_0_conv)

lemma construct_empty:
  "construct [] None lg = \<lparr>corpus = [], startingWord = None, guessesAndScores = [],
                logging = lg, guessLength = 5\<rparr>"
  by (simp add: construct_def reset_def sort_solver_def sortByCommonness_def getSolutions_def
      first_or_null_def)

text \<open>
  On the words of the corpus the comparator of \<^verbatim>\<open>sortByCommonness\<close> is the
  specification's order, and the first word of the ranked corpus is the first word of the
  corpus that ranks no lower than any other.
\<close>

lemma letterFrequencyScore_Num:
  assumes "\<forall>l \<in> set w. letterFrequency s None l \<noteq> None"
  shows "letterFrequencyScore s w = Num (sum_list (map (\<lambda>l. the (letterFrequency s None l)) w))"
  using assms by (simp add: letterFrequencyScore_def fold_add_lookup)

lemma ranking_spec:
  assumes "a \<in> set (corpus s)" "b \<in> set (corpus s)"
  shows "not_after (byFrequency (letterFrequency s None) a b) \<longleftrightarrow> spec_ranks_no_lower s a b"
  using letterFrequency_defined [OF assms(1)] letterFrequency_defined [OF assms(2)]
  by (simp add: not_after_byFrequency spec_ranks_no_lower_def letterFrequencyScore_Num)

lemma ranking_total:
  assumes "a \<in> set (corpus s)" "b \<in> set (corpus s)"
  shows "not_after (byFrequency (letterFrequency s None) a b)
       \<or> not_after (byFrequency (letterFrequency s None) b a)"
  using letterFrequency_defined [OF assms(1)] letterFrequency_defined [OF assms(2)]
  by (simp add: not_after_byFrequency, linarith)

lemma ranking_trans:
  assumes "a \<in> set (corpus s)" "b \<in> set (corpus s)" "c \<in> set (corpus s)"
    and "not_after (byFrequency (letterFrequency s None) a b)"
    and "not_after (byFrequency (letterFrequency s None) b c)"
  shows "not_after (byFrequency (letterFrequency s None) a c)"
  using letterFrequency_defined [OF assms(1)] letterFrequency_defined [OF assms(2)]
    letterFrequency_defined [OF assms(3)] assms(4,5)
  by (simp add: not_after_byFrequency, linarith)

lemma first_or_null_filter:
  "first_or_null (filter P xs) = Some h \<Longrightarrow> h \<in> set xs \<and> P h"
proof -
  assume "first_or_null (filter P xs) = Some h"
  then have "h \<in> set (filter P xs)"
    by (cases "filter P xs") (simp_all add: first_or_null_def)
  then show ?thesis by simp
qed

lemma first_array_sort:
  assumes tot: "\<And>a b. a \<in> A \<Longrightarrow> b \<in> A \<Longrightarrow> not_after (cmp a b) \<or> not_after (cmp b a)"
    and trans: "\<And>a b c. a \<in> A \<Longrightarrow> b \<in> A \<Longrightarrow> c \<in> A \<Longrightarrow>
                  not_after (cmp a b) \<Longrightarrow> not_after (cmp b c) \<Longrightarrow> not_after (cmp a c)"
    and "set xs \<subseteq> A"
  shows "first_or_null (array_sort cmp xs)
       = first_or_null (filter (\<lambda>w. \<forall>v \<in> set xs. not_after (cmp w v)) xs)"
  using assms(3)
proof (induction xs)
  case Nil
  then show ?case by simp
next
  case (Cons x xs)
  have xA: "x \<in> A" and xsA: "set xs \<subseteq> A" using Cons.prems by simp_all
  have rx: "not_after (cmp x x)" using tot [OF xA xA] by simp
  show ?case
  proof (cases "array_sort cmp xs")
    case Nil
    then have "xs = []" using length_array_sort [of cmp xs] by simp
    then show ?thesis using rx by (simp add: first_or_null_def)
  next
    case (Cons h t)
    have "first_or_null (filter (\<lambda>w. \<forall>v \<in> set xs. not_after (cmp w v)) xs) = Some h"
      using Cons.IH [OF xsA] Cons by (simp add: first_or_null_def)
    note fh = this
    from first_or_null_filter [OF fh]
    have hxs: "h \<in> set xs" and hmax: "\<forall>v \<in> set xs. not_after (cmp h v)" by simp_all
    have hA: "h \<in> A" using hxs xsA by blast
    show ?thesis
    proof (cases "not_after (cmp x h)")
      case True
      have "not_after (cmp x v)" if "v \<in> set xs" for v
        using trans [OF xA hA _ True] hmax that xsA by blast
      then have "\<forall>v \<in> set (x # xs). not_after (cmp x v)" using rx by simp
      then have "first_or_null (filter (\<lambda>w. \<forall>v \<in> set (x # xs). not_after (cmp w v)) (x # xs))
          = Some x"
        by (simp add: first_or_null_def)
      moreover have "first_or_null (array_sort cmp (x # xs)) = Some x"
        using True Cons by (simp add: first_or_null_def)
      ultimately show ?thesis by simp
    next
      case False
      then have hx: "not_after (cmp h x)" using tot [OF xA hA] by blast
      have "(\<forall>v \<in> set (x # xs). not_after (cmp w v)) \<longleftrightarrow> (\<forall>v \<in> set xs. not_after (cmp w v))"
        if "w \<in> set xs" for w
      proof -
        have "not_after (cmp w x)" if m: "\<forall>v \<in> set xs. not_after (cmp w v)"
        proof -
          have "not_after (cmp w h)" using m hxs by blast
          then show ?thesis using trans [OF _ hA xA _ hx] \<open>w \<in> set xs\<close> xsA by blast
        qed
        then show ?thesis by auto
      qed
      then have "filter (\<lambda>w. \<forall>v \<in> set (x # xs). not_after (cmp w v)) xs
          = filter (\<lambda>w. \<forall>v \<in> set xs. not_after (cmp w v)) xs"
        by (intro filter_cong refl)
      moreover have "\<not> (\<forall>v \<in> set (x # xs). not_after (cmp x v))"
        using False hxs by auto
      then have "filter (\<lambda>w. \<forall>v \<in> set (x # xs). not_after (cmp w v)) (x # xs)
          = filter (\<lambda>w. \<forall>v \<in> set (x # xs). not_after (cmp w v)) xs"
        by (simp only: filter.simps if_False)
      ultimately have "first_or_null (filter (\<lambda>w. \<forall>v \<in> set (x # xs). not_after (cmp w v)) (x # xs))
          = Some h"
        using fh by (simp only:)
      moreover have "first_or_null (array_sort cmp (x # xs)) = Some h"
        using False Cons by (simp add: first_or_null_def)
      ultimately show ?thesis by simp
    qed
  qed
qed

lemma first_ranked:
  "first_or_null (corpus (sort_solver s))
     = first_or_null (filter (\<lambda>w. \<forall>v \<in> set (corpus s). spec_ranks_no_lower s w v) (corpus s))"
proof -
  let ?cmp = "byFrequency (letterFrequency s None)"
  have "first_or_null (array_sort ?cmp (corpus s))
       = first_or_null (filter (\<lambda>w. \<forall>v \<in> set (corpus s). not_after (?cmp w v)) (corpus s))"
    by (rule first_array_sort [where A = "set (corpus s)"])
      (use ranking_total ranking_trans in blast)+
  moreover have "filter (\<lambda>w. \<forall>v \<in> set (corpus s). not_after (?cmp w v)) (corpus s)
      = filter (\<lambda>w. \<forall>v \<in> set (corpus s). spec_ranks_no_lower s w v) (corpus s)"
    by (rule filter_cong) (simp_all add: ranking_spec)
  ultimately show ?thesis by (simp add: corpus_sort_solver)
qed

lemma sorted_corpus_sort_solver:
  "sorted_wrt (spec_ranks_no_lower s) (corpus (sort_solver s))"
proof -
  let ?cmp = "byFrequency (letterFrequency s None)"
  have "sorted_wrt (\<lambda>a b. not_after (?cmp a b)) (array_sort ?cmp (corpus s))"
    by (rule sorted_array_sort [where A = "set (corpus s)"])
      (use ranking_total ranking_trans in blast)+
  then have "sorted_wrt (spec_ranks_no_lower s) (array_sort ?cmp (corpus s))"
    by (rule sorted_wrt_mono_rel [rotated]) (simp add: set_array_sort ranking_spec)
  then show ?thesis by (simp add: corpus_sort_solver)
qed

text \<open>
  C7: with an empty history \<^verbatim>\<open>getBestGuess\<close> returns the starting word and changes
  nothing; a solver constructed from the empty corpus with no starting word has no
  starting word, so its first best guess is \<^verbatim>\<open>null\<close>; with a history the corpus is ranked
  again (the same words, in the specification's order of desirability) and its first word is
  returned: the first word of the corpus that ranks no lower than any word of the corpus,
  and \<^verbatim>\<open>null\<close> exactly when the corpus is empty.
\<close>

theorem getBestGuess_cases:
  "(guessesAndScores s = [] \<longrightarrow> getBestGuess s = (startingWord s, s))
   \<and> startingWord (construct [] None lg) = None
   \<and> fst (getBestGuess (construct [] None lg)) = None
   \<and> (guessesAndScores s \<noteq> [] \<longrightarrow>
        getBestGuess s = (first_or_null (corpus (sort_solver s)), sort_solver s)
        \<and> mset (corpus (sort_solver s)) = mset (corpus s)
        \<and> sorted_wrt (spec_ranks_no_lower s) (corpus (sort_solver s))
        \<and> fst (getBestGuess s)
            = first_or_null (filter (\<lambda>w. \<forall>v \<in> set (corpus s). spec_ranks_no_lower s w v)
                               (corpus s))
        \<and> (fst (getBestGuess s) = None \<longleftrightarrow> corpus s = []))"
proof -
  have empty_history: "guessesAndScores s = [] \<longrightarrow> getBestGuess s = (startingWord s, s)"
    by (simp add: getBestGuess_def)
  have no_start: "startingWord (construct [] None lg) = None"
    "fst (getBestGuess (construct [] None lg)) = None"
    by (simp_all add: getBestGuess_def construct_empty)
  have ranked: "getBestGuess s = (first_or_null (corpus (sort_solver s)), sort_solver s)"
    if "guessesAndScores s \<noteq> []"
    using that by (simp add: getBestGuess_def getSolutions_def Let_def)
  have none: "fst (getBestGuess s) = None \<longleftrightarrow> corpus s = []"
    if "guessesAndScores s \<noteq> []"
    unfolding ranked [OF that] by (simp add: first_or_null_None corpus_sort_solver_Nil)
  have top: "fst (getBestGuess s)
      = first_or_null (filter (\<lambda>w. \<forall>v \<in> set (corpus s). spec_ranks_no_lower s w v) (corpus s))"
    if "guessesAndScores s \<noteq> []"
    unfolding ranked [OF that] using first_ranked [of s] by simp
  from empty_history no_start ranked none top
    mset_corpus_sort_solver [of s] sorted_corpus_sort_solver [of s]
  show ?thesis by blast
qed

text \<open>
  In the second demo state the corpus starts with \<^verbatim>\<open>abbcc\<close>, and the best guess is
  \<^verbatim>\<open>aaabc\<close>, which the ranking puts first.
\<close>

theorem getBestGuess_cases_witness:
  "guessesAndScores demo_solver = []
   \<and> getBestGuess demo_solver = (Some ''rebut'', demo_solver)
   \<and> excludeLetters (snd (score (construct [''aaabc'', ''abbcc'', ''bbbcz''] (Some ''abbcc'') False)
                               ''yyyyy'' ''eeeee'')) ''z'' = demo_filtered
   \<and> guessesAndScores demo_filtered \<noteq> []
   \<and> first_or_null (corpus demo_filtered) = Some ''abbcc''
   \<and> getBestGuess demo_filtered
        = (Some ''aaabc'', demo_filtered\<lparr>corpus := [''aaabc'', ''abbcc'']\<rparr>)
   \<and> guessesAndScores (demo_filtered\<lparr>corpus := []\<rparr>) \<noteq> []
   \<and> fst (getBestGuess (demo_filtered\<lparr>corpus := []\<rparr>)) = None"
proof -
  have e: "guessesAndScores demo_solver = []" "startingWord demo_solver = Some ''rebut''"
    by (simp_all add: demo_solver_def)
  have n: "guessesAndScores demo_filtered \<noteq> []"
    "guessesAndScores (demo_filtered\<lparr>corpus := []\<rparr>) \<noteq> []"
    by (simp_all add: demo_filtered_def)
  have built: "construct [''aaabc'', ''abbcc'', ''bbbcz''] (Some ''abbcc'') False
      = \<lparr>corpus = [''abbcc'', ''bbbcz'', ''aaabc''], startingWord = Some ''abbcc'',
          guessesAndScores = [], logging = False, guessLength = 5\<rparr>"
    by code_simp
  have scored: "score \<lparr>corpus = [''abbcc'', ''bbbcz'', ''aaabc''], startingWord = Some ''abbcc'',
          guessesAndScores = [], logging = False, guessLength = 5\<rparr> ''yyyyy'' ''eeeee''
      = (None, \<lparr>corpus = [''abbcc'', ''bbbcz'', ''aaabc''], startingWord = Some ''abbcc'',
          guessesAndScores = [(''yyyyy'', ''eeeee'')], logging = False, guessLength = 5\<rparr>)"
    by code_simp
  have filtered: "excludeLetters \<lparr>corpus = [''abbcc'', ''bbbcz'', ''aaabc''],
          startingWord = Some ''abbcc'', guessesAndScores = [(''yyyyy'', ''eeeee'')],
          logging = False, guessLength = 5\<rparr> ''z'' = demo_filtered"
    by code_simp
  have reach: "excludeLetters (snd (score (construct [''aaabc'', ''abbcc'', ''bbbcz'']
      (Some ''abbcc'') False) ''yyyyy'' ''eeeee'')) ''z'' = demo_filtered"
    by (simp only: built scored snd_conv filtered)
  have head: "first_or_null (corpus demo_filtered) = Some ''abbcc''"
    by (simp add: demo_filtered_def first_or_null_def)
  have top: "first_or_null (filter (\<lambda>w. \<forall>v \<in> set (corpus demo_filtered).
                 spec_ranks_no_lower demo_filtered w v) (corpus demo_filtered)) = Some ''aaabc''"
    by code_simp
  have ranked: "sort_solver demo_filtered = demo_filtered\<lparr>corpus := [''aaabc'', ''abbcc'']\<rparr>"
    by code_simp
  from getBestGuess_cases [of demo_solver False] e
  have a: "getBestGuess demo_solver = (Some ''rebut'', demo_solver)" by simp
  from getBestGuess_cases [of demo_filtered False] n(1)
  have "getBestGuess demo_filtered
          = (first_or_null (corpus (sort_solver demo_filtered)), sort_solver demo_filtered)"
    and "fst (getBestGuess demo_filtered)
          = first_or_null (filter (\<lambda>w. \<forall>v \<in> set (corpus demo_filtered).
                 spec_ranks_no_lower demo_filtered w v) (corpus demo_filtered))"
    by blast+
  then have b: "getBestGuess demo_filtered
        = (Some ''aaabc'', demo_filtered\<lparr>corpus := [''aaabc'', ''abbcc'']\<rparr>)"
    unfolding top ranked by (simp add: prod_eq_iff)
  have emp: "corpus (demo_filtered\<lparr>corpus := []\<rparr>) = []" by simp
  from getBestGuess_cases [of "demo_filtered\<lparr>corpus := []\<rparr>" False] n(2) emp
  have c: "fst (getBestGuess (demo_filtered\<lparr>corpus := []\<rparr>)) = None" by blast
  from e(1) a reach n head b c show ?thesis by blast
qed

subsection \<open>The scorer\<close>

text \<open>
  C8: for a guess and a target of the same length \<^verbatim>\<open>scoreGuess\<close> gives, at each
  position, \<^verbatim>\<open>x\<close> when the letters agree, else \<^verbatim>\<open>i\<close> when the guessed letter occurs in
  the target, else \<^verbatim>\<open>e\<close>; a word scored against itself is all \<^verbatim>\<open>x\<close>.
\<close>

theorem scoreGuess_positions:
  "length guess = length targetWord \<longrightarrow>
     length (scoreGuess guess targetWord) = length guess
     \<and> (\<forall>i<length guess. scoreGuess guess targetWord ! i =
           (if guess ! i = targetWord ! i then CHR ''x''
            else if guess ! i \<in> set targetWord then CHR ''i'' else CHR ''e''))
     \<and> scoreGuess guess guess = replicate (length guess) CHR ''x''"
proof -
  have same: "scoreGuess guess guess = replicate (length guess) CHR ''x''"
  proof -
    have "scoreGuess guess guess = map (\<lambda>i. CHR ''x'') [0..<length guess]"
      by (simp add: scoreGuess_def zip_js_index at_index_def)
    then show ?thesis by (simp add: map_replicate_const)
  qed
  show ?thesis
    by (simp add: same) (simp add: scoreGuess_def zip_js_index at_index_def)
qed

theorem scoreGuess_positions_witness:
  "length ''speed'' = length ''abide''
   \<and> scoreGuess ''speed'' ''abide'' = ''eeiii''
   \<and> scoreGuess ''speed'' ''speed'' = ''xxxxx''"
proof -
  have len: "length ''speed'' = length ''abide''" by simp
  from scoreGuess_positions [of "''speed''" "''abide''"] len
  have l: "length (scoreGuess ''speed'' ''abide'') = length ''speed''"
    and p: "\<forall>i<length ''speed''. scoreGuess ''speed'' ''abide'' ! i =
           (if ''speed'' ! i = ''abide'' ! i then CHR ''x''
            else if ''speed'' ! i \<in> set ''abide'' then CHR ''i'' else CHR ''e'')"
    and same: "scoreGuess ''speed'' ''speed'' = replicate (length ''speed'') CHR ''x''"
    by blast+
  have "scoreGuess ''speed'' ''abide'' ! i = ''eeiii'' ! i" if "i < length ''speed''" for i
  proof -
    from p that have v: "scoreGuess ''speed'' ''abide'' ! i =
           (if ''speed'' ! i = ''abide'' ! i then CHR ''x''
            else if ''speed'' ! i \<in> set ''abide'' then CHR ''i'' else CHR ''e'')"
      by blast
    from that consider "i = 0" | "i = 1" | "i = 2" | "i = 3" | "i = 4"
      by (simp add: less_Suc_eq) linarith
    then show ?thesis
      unfolding v by cases simp_all
  qed
  then have other: "scoreGuess ''speed'' ''abide'' = ''eeiii''"
    using l by (intro nth_equalityI) simp_all
  have own: "scoreGuess ''speed'' ''speed'' = ''xxxxx''"
    unfolding same by simp
  from len other own show ?thesis by blast
qed

subsection \<open>The second guess\<close>

text \<open>
  C10: with an empty history \<^verbatim>\<open>getSecondGuess\<close> returns the corpus as it stands: nothing
  is filtered out, no solver is constructed and the words are not ranked.
\<close>

theorem getSecondGuess_no_history:
  "guessesAndScores s = [] \<Longrightarrow> getSecondGuess s = corpus s"
  by (simp add: getSecondGuess_def)

text \<open>The demo corpus is not in ranked order, and comes back as it is.\<close>

theorem getSecondGuess_no_history_witness:
  "guessesAndScores demo_solver = []
   \<and> getSecondGuess demo_solver = [''rugby'', ''debit'', ''rebut'']
   \<and> corpus (sort_solver demo_solver) = [''rebut'', ''rugby'', ''debit'']"
proof -
  have e: "guessesAndScores demo_solver = []" by (simp add: demo_solver_def)
  have r: "corpus (sort_solver demo_solver) = [''rebut'', ''rugby'', ''debit'']" by code_simp
  from getSecondGuess_no_history [OF e] e r show ?thesis
    by (simp add: demo_solver_def)
qed

end
